theory Spec2Isabelle
  imports
    Complex_Main
    "HOL-Library.Multiset"
    "HOL-Library.Char_ord"
    "HOL-Library.List_Lexorder"
begin

section \<open>Capital gains of a bitcoin holding: the accounting engine of bitcoin\_gains.py\<close>

text \<open>
  The program is Python 2. Its amounts are \<^verbatim>\<open>decimal.Decimal\<close> values under the
  default decimal context, its dates are \<^verbatim>\<open>time.struct_time\<close> tuples, its classes
  are old-style classes ordered by \<^verbatim>\<open>__cmp__\<close>.

  Modelling decisions that hold for the whole development:
  \<^item> A finite \<^verbatim>\<open>Decimal\<close> is a rational number. Sums, differences, products and
    quotients are exact: the 28 significant digits of the default context and the
    special values (NaN, infinities, signed zero) are outside the model. The one place
    where the program rounds on purpose, \<^verbatim>\<open>quantize\<close>, is modelled with the
    rounding mode the default context prescribes.
  \<^item> An exception is a value of \<open>py_error\<close>; a function that can raise returns a sum
    with the error on the left.
  \<^item> Truthiness (\<^verbatim>\<open>if x\<close>, \<^verbatim>\<open>x or y\<close>) of an optional amount is \<open>truthy\<close>:
    \<^verbatim>\<open>None\<close> and zero are false.
\<close>

subsection \<open>Exceptions\<close>

datatype py_error =
    TypeError
  | IndexError
  | ValueError
  | UnboundLocalError
  | AttributeError
  | ZeroDivisionError
  | InvalidOperation

subsection \<open>Decimal arithmetic\<close>

type_synonym decimal = rat

text \<open>\<^verbatim>\<open>bool(x)\<close> for an attribute that holds \<^verbatim>\<open>None\<close> or a \<^verbatim>\<open>Decimal\<close>.\<close>

definition truthy :: "decimal option \<Rightarrow> bool" where
  "truthy x = (case x of None \<Rightarrow> False | Some d \<Rightarrow> d \<noteq> 0)"

text \<open>
  \<^verbatim>\<open>x / y\<close> on decimals: the default context traps a zero divisor
  (\<^verbatim>\<open>DivisionByZero\<close>, a \<^verbatim>\<open>ZeroDivisionError\<close>; \<^verbatim>\<open>0 / 0\<close> is
  \<^verbatim>\<open>InvalidOperation\<close>).
\<close>

definition dec_div :: "decimal \<Rightarrow> decimal \<Rightarrow> py_error + decimal" where
  "dec_div x y =
     (if y = 0 then Inl (if x = 0 then InvalidOperation else ZeroDivisionError)
      else Inr (x / y))"

text \<open>
  \<^verbatim>\<open>Decimal.quantize(exp)\<close> rounds its receiver to the exponent of \<open>exp\<close>. The
  program never passes a rounding mode and never touches the context, so the mode is
  the default context's \<^verbatim>\<open>ROUND_HALF_EVEN\<close>: to the nearest multiple, a tie to the
  multiple with an even last digit. \<open>round_half_even y\<close> is that rule on the scaled
  value; \<open>quantize x e\<close> applies it for an \<open>e\<close> of the form \<open>10\<^sup>-\<^sup>k\<close>, the only
  form the program uses.
\<close>

definition round_half_even :: "rat \<Rightarrow> int" where
  "round_half_even y =
     (let f = \<lfloor>y\<rfloor>; r = y - of_int f in
      if r < 1 / 2 then f
      else if 1 / 2 < r then f + 1
      else if even f then f else f + 1)"

definition quantize :: "decimal \<Rightarrow> decimal \<Rightarrow> decimal" where
  "quantize x e = of_int (round_half_even (x / e)) * e"

text \<open>
  \<^verbatim>\<open>
  tenth = decimal.Decimal('0.1')
  def roundd(x, digits):
      return x.quantize(tenth**digits)
  \<close>
\<close>

definition tenth :: decimal where
  "tenth = 1 / 10"

definition roundd :: "decimal \<Rightarrow> nat \<Rightarrow> decimal" where
  "roundd x digits = quantize x (tenth ^ digits)"



subsection \<open>Timestamps and comparison\<close>

text \<open>
  A \<^verbatim>\<open>time.struct_time\<close> is a tuple of nine integers and compares as one:
  lexicographically, the year first.
\<close>

record struct_time =
  tm_year :: int
  tm_mon :: int
  tm_mday :: int
  tm_hour :: int
  tm_min :: int
  tm_sec :: int
  tm_wday :: int
  tm_yday :: int
  tm_isdst :: int

definition tm_tuple :: "struct_time \<Rightarrow> int list" where
  "tm_tuple t =
     [tm_year t, tm_mon t, tm_mday t, tm_hour t, tm_min t, tm_sec t,
      tm_wday t, tm_yday t, tm_isdst t]"

text \<open>Python 2's \<^verbatim>\<open>cmp\<close> and the \<^verbatim>\<open>or\<close> of two integers.\<close>

definition cmp :: "'a::linorder \<Rightarrow> 'a \<Rightarrow> int" where
  "cmp x y = (if x < y then - 1 else if x = y then 0 else 1)"

definition py_or :: "int \<Rightarrow> int \<Rightarrow> int" where
  "py_or a b = (if a \<noteq> 0 then a else b)"

subsection \<open>Transactions\<close>

text \<open>
  \<^verbatim>\<open>
  _unique = 0
  def unique():
      global _unique
      _unique += 1
      return "unique:%s" % _unique
  \<close>
  The counter is passed in and returned.
\<close>

fun show_nat :: "nat \<Rightarrow> string" where
  "show_nat n =
     (if n < 10 then [''0123456789'' ! n]
      else show_nat (n div 10) @ [''0123456789'' ! (n mod 10)])"

declare show_nat.simps [simp del]

definition unique :: "nat \<Rightarrow> string \<times> nat" where
  "unique counter = (''unique:'' @ show_nat (counter + 1), counter + 1)"

text \<open>
  The fields of \<^verbatim>\<open>Transaction\<close>; \<open>tx_id\<close> is the attribute \<^verbatim>\<open>id\<close>. The
  attribute \<^verbatim>\<open>parser\<close>, which \<^verbatim>\<open>main\<close> attaches for grouping and printing, plays
  no part in the stages modelled here.
\<close>

record transaction =
  timestamp :: struct_time
  type :: string
  btc :: "decimal option"
  usd :: "decimal option"
  price :: "decimal option"
  fee_usd :: "decimal option"
  fee_btc :: "decimal option"
  info :: "string option"
  tx_id :: string

text \<open>
  \<^verbatim>\<open>
  def __init__(self, timestamp, type, btc, usd, price=None, fee_usd=0, fee_btc=0,
               info=None, id=None):
      ...
      self.btc = decimal_or_none(btc)   # and usd, price, fee_usd, fee_btc
      if self.btc and self.usd and self.price is None:
          self.price = self.usd / self.btc
      if id is None:
          id = unique()
      self.id = id
  \<close>
  The arguments are taken after \<^verbatim>\<open>decimal_or_none\<close>: \<open>None\<close> or a decimal. The
  result carries the counter of \<^verbatim>\<open>unique\<close>.
\<close>

definition Transaction_init ::
  "nat \<Rightarrow> struct_time \<Rightarrow> string \<Rightarrow> decimal option \<Rightarrow> decimal option \<Rightarrow> decimal option \<Rightarrow>
   decimal option \<Rightarrow> decimal option \<Rightarrow> string option \<Rightarrow> string option \<Rightarrow>
   py_error + (transaction \<times> nat)" where
  "Transaction_init counter ts ty b u p fu fb nfo ident =
     (case (if truthy b \<and> truthy u \<and> p = None
            then (case dec_div (the u) (the b) of Inl e \<Rightarrow> Inl e | Inr q \<Rightarrow> Inr (Some q))
            else Inr p) of
        Inl e \<Rightarrow> Inl e
      | Inr p' \<Rightarrow>
          (let (i, counter') = (case ident of None \<Rightarrow> unique counter | Some s \<Rightarrow> (s, counter))
           in Inr (\<lparr>timestamp = ts, type = ty, btc = b, usd = u, price = p',
                     fee_usd = fu, fee_btc = fb, info = nfo, tx_id = i\<rparr>, counter')))"

text \<open>
  \<^verbatim>\<open>__cmp__\<close> of Transaction:
  \<^verbatim>\<open>cmp(left.timestamp, right.timestamp) or cmp(left.id, right.id)\<close>.
\<close>

definition transaction_cmp :: "transaction \<Rightarrow> transaction \<Rightarrow> int" where
  "transaction_cmp left right =
     py_or (cmp (tm_tuple (timestamp left)) (tm_tuple (timestamp right)))
           (cmp (tx_id left) (tx_id right))"

subsection \<open>Lots\<close>

text \<open>
  \<^verbatim>\<open>
  class Lot:
      def __init__(self, timestamp, btc, usd, transaction):
          ...
          self.price = usd / btc
  \<close>
  The fields carry the prefix \<open>lot_\<close>; \<open>lot_usd\<close> is the cost basis.
\<close>

record lot =
  lot_timestamp :: struct_time
  lot_btc :: decimal
  lot_usd :: decimal
  lot_price :: decimal
  lot_transaction :: transaction

definition Lot_init :: "struct_time \<Rightarrow> decimal \<Rightarrow> decimal \<Rightarrow> transaction \<Rightarrow> py_error + lot" where
  "Lot_init ts b u tx =
     (case dec_div u b of
        Inl e \<Rightarrow> Inl e
      | Inr p \<Rightarrow>
          Inr \<lparr>lot_timestamp = ts, lot_btc = b, lot_usd = u, lot_price = p,
               lot_transaction = tx\<rparr>)"

text \<open>
  \<^verbatim>\<open>
  def sell(self, btc):
      if btc > self.btc:
          return None
      else:
          return Lot(self.timestamp, self.btc - btc,
                     self.usd - roundd(self.price * btc, 2), self.transaction)
  \<close>
\<close>

definition sell :: "lot \<Rightarrow> decimal \<Rightarrow> py_error + lot option" where
  "sell self b =
     (if lot_btc self < b then Inr None
      else
        (case Lot_init (lot_timestamp self) (lot_btc self - b)
                (lot_usd self - roundd (lot_price self * b) 2) (lot_transaction self) of
           Inl e \<Rightarrow> Inl e
         | Inr l \<Rightarrow> Inr (Some l)))"

text \<open>
  \<^verbatim>\<open>
  def __cmp__(left, right):
      if parsed_args.method == 'fifo':
          return cmp(left.timestamp, right.timestamp) or cmp(left.transaction, right.transaction)
      elif parsed_args.method == 'lifo':
          return cmp(right.timestamp, left.timestamp) or cmp(left.transaction, right.transaction)
  \<close>
  \<open>meth\<close> is \<^verbatim>\<open>parsed_args.method\<close>, any string the command line gave. For a
  method that is neither \<^verbatim>\<open>fifo\<close> nor \<^verbatim>\<open>lifo\<close> the function falls off its end
  and returns \<^verbatim>\<open>None\<close>.
\<close>

definition lot_cmp :: "string \<Rightarrow> lot \<Rightarrow> lot \<Rightarrow> int option" where
  "lot_cmp meth left right =
     (if meth = ''fifo'' then
        Some (py_or (cmp (tm_tuple (lot_timestamp left)) (tm_tuple (lot_timestamp right)))
                    (transaction_cmp (lot_transaction left) (lot_transaction right)))
      else if meth = ''lifo'' then
        Some (py_or (cmp (tm_tuple (lot_timestamp right)) (tm_tuple (lot_timestamp left)))
                    (transaction_cmp (lot_transaction left) (lot_transaction right)))
      else None)"

subsection \<open>The priority structure: heapq over a list\<close>

text \<open>
  \<^verbatim>\<open>Heap\<close> keeps a list \<^verbatim>\<open>data\<close> and hands it to \<^verbatim>\<open>heapq.heappush\<close> and
  \<^verbatim>\<open>heapq.heappop\<close> of the Python 2.7 standard library, which are modelled as that
  library writes them (its C accelerator runs the same algorithm):
  \<^verbatim>\<open>
  def cmp_lt(x, y):
      return (x < y) if hasattr(x, '__lt__') else (not y <= x)
  \<close>
  A \<^verbatim>\<open>Lot\<close> is an instance of an old-style class without \<^verbatim>\<open>__lt__\<close>, so the
  second branch runs: \<^verbatim>\<open>y <= x\<close> calls \<^verbatim>\<open>y.__cmp__(x)\<close> and compares the
  result with zero; a result that is not an integer raises \<^verbatim>\<open>TypeError\<close>.
\<close>

definition cmp_lt :: "string \<Rightarrow> lot \<Rightarrow> lot \<Rightarrow> py_error + bool" where
  "cmp_lt meth x y =
     (case lot_cmp meth y x of None \<Rightarrow> Inl TypeError | Some c \<Rightarrow> Inr (\<not> c \<le> 0))"

text \<open>
  \<^verbatim>\<open>
  def _siftdown(heap, startpos, pos):
      newitem = heap[pos]
      while pos > startpos:
          parentpos = (pos - 1) >> 1
          parent = heap[parentpos]
          if cmp_lt(newitem, parent):
              heap[pos] = parent
              pos = parentpos
              continue
          break
      heap[pos] = newitem
  \<close>
\<close>

fun siftdown_loop ::
  "('a \<Rightarrow> 'a \<Rightarrow> py_error + bool) \<Rightarrow> 'a \<Rightarrow> nat \<Rightarrow> 'a list \<Rightarrow> nat \<Rightarrow> py_error + 'a list" where
  "siftdown_loop lt newitem startpos heap pos =
     (if startpos < pos then
        (case lt newitem (heap ! ((pos - 1) div 2)) of
           Inl e \<Rightarrow> Inl e
         | Inr b \<Rightarrow>
             if b then
               siftdown_loop lt newitem startpos (heap[pos := heap ! ((pos - 1) div 2)])
                 ((pos - 1) div 2)
             else Inr (heap[pos := newitem]))
      else Inr (heap[pos := newitem]))"

declare siftdown_loop.simps [simp del]

definition siftdown ::
  "('a \<Rightarrow> 'a \<Rightarrow> py_error + bool) \<Rightarrow> 'a list \<Rightarrow> nat \<Rightarrow> nat \<Rightarrow> py_error + 'a list" where
  "siftdown lt heap startpos pos =
     (if pos < length heap then siftdown_loop lt (heap ! pos) startpos heap pos
      else Inl IndexError)"

text \<open>
  \<^verbatim>\<open>
  def _siftup(heap, pos):
      endpos = len(heap)
      startpos = pos
      newitem = heap[pos]
      childpos = 2*pos + 1
      while childpos < endpos:
          rightpos = childpos + 1
          if rightpos < endpos and not cmp_lt(heap[childpos], heap[rightpos]):
              childpos = rightpos
          heap[pos] = heap[childpos]
          pos = childpos
          childpos = 2*pos + 1
      heap[pos] = newitem
      _siftdown(heap, startpos, pos)
  \<close>
  \<open>siftup_loop\<close> is the while loop; it returns the list and the leaf it stopped at.
\<close>

function siftup_loop ::
  "('a \<Rightarrow> 'a \<Rightarrow> py_error + bool) \<Rightarrow> 'a list \<Rightarrow> nat \<Rightarrow> py_error + ('a list \<times> nat)" where
  "siftup_loop lt heap pos =
     (if 2 * pos + 1 < length heap then
        (case (if 2 * pos + 2 < length heap
               then (case lt (heap ! (2 * pos + 1)) (heap ! (2 * pos + 2)) of
                       Inl e \<Rightarrow> Inl e
                     | Inr b \<Rightarrow> Inr (if \<not> b then 2 * pos + 2 else 2 * pos + 1))
               else Inr (2 * pos + 1)) of
           Inl e \<Rightarrow> Inl e
         | Inr childpos \<Rightarrow> siftup_loop lt (heap[pos := heap ! childpos]) childpos)
      else Inr (heap, pos))"
  by pat_completeness auto
termination
  by (relation "measure (\<lambda>(lt, heap, pos). length heap - pos)")
     (auto split: if_splits sum.splits)

declare siftup_loop.simps [simp del]

definition siftup ::
  "('a \<Rightarrow> 'a \<Rightarrow> py_error + bool) \<Rightarrow> 'a list \<Rightarrow> nat \<Rightarrow> py_error + 'a list" where
  "siftup lt heap pos =
     (if pos < length heap then
        (case siftup_loop lt heap pos of
           Inl e \<Rightarrow> Inl e
         | Inr (heap', pos') \<Rightarrow> siftdown lt (heap'[pos' := heap ! pos]) pos pos')
      else Inl IndexError)"

text \<open>
  \<^verbatim>\<open>
  def heappush(heap, item):
      heap.append(item)
      _siftdown(heap, 0, len(heap)-1)

  def heappop(heap):
      lastelt = heap.pop()    # raises appropriate IndexError if heap is empty
      if heap:
          returnitem = heap[0]
          heap[0] = lastelt
          _siftup(heap, 0)
      else:
          returnitem = lastelt
      return returnitem
  \<close>
  \<^verbatim>\<open>Heap.push\<close> and \<^verbatim>\<open>Heap.pop\<close> are these two on \<^verbatim>\<open>self.data\<close>; the model
  returns the new list, and \<open>heappop\<close> the item with it.
\<close>

definition heappush ::
  "('a \<Rightarrow> 'a \<Rightarrow> py_error + bool) \<Rightarrow> 'a list \<Rightarrow> 'a \<Rightarrow> py_error + 'a list" where
  "heappush lt heap item = siftdown lt (heap @ [item]) 0 (length (heap @ [item]) - 1)"

definition heappop ::
  "('a \<Rightarrow> 'a \<Rightarrow> py_error + bool) \<Rightarrow> 'a list \<Rightarrow> py_error + ('a \<times> 'a list)" where
  "heappop lt heap =
     (if heap = [] then Inl IndexError
      else
        (let lastelt = last heap; heap' = butlast heap in
         if heap' \<noteq> [] then
           (case siftup lt (heap'[0 := lastelt]) 0 of
              Inl e \<Rightarrow> Inl e
            | Inr heap'' \<Rightarrow> Inr (heap' ! 0, heap''))
         else Inr (lastelt, heap')))"

subsection \<open>Sizes and contents of the heap list\<close>

text \<open>
  The loop of the ledger pops until the quantity is covered; that it stops rests on
  \<open>heappop\<close> shortening the list, so these facts come before the ledger.
\<close>

lemma length_siftdown_loop:
  "siftdown_loop lt new s h pos = Inr h' \<Longrightarrow> length h' = length h"
proof (induction lt new s h pos rule: siftdown_loop.induct)
  case (1 lt newitem startpos heap pos)
  then show ?case
    by (subst (asm) (2) siftdown_loop.simps) (auto split: if_splits sum.splits)
qed

lemma length_siftup_loop:
  "siftup_loop lt h pos = Inr (h', p') \<Longrightarrow> length h' = length h"
proof (induction lt h pos rule: siftup_loop.induct)
  case (1 lt heap pos)
  then show ?case
    by (subst (asm) (2) siftup_loop.simps) (auto split: if_splits sum.splits)
qed

lemma siftup_loop_pos:
  "pos < length h \<Longrightarrow> siftup_loop lt h pos = Inr (h', p') \<Longrightarrow> p' < length h \<and> length h \<le> 2 * p' + 1"
proof (induction lt h pos rule: siftup_loop.induct)
  case (1 lt heap pos)
  then show ?case
    by (subst (asm) (2) siftup_loop.simps) (auto split: if_splits sum.splits)
qed

lemma mset_update_swap:
  assumes "i < length h" "j < length h" "i \<noteq> j"
  shows "mset (h[i := h ! j, j := x]) = mset (h[i := x])"
  using assms by (simp add: mset_update nth_list_update)

lemma mset_siftdown_loop:
  "pos < length h \<Longrightarrow> siftdown_loop lt new s h pos = Inr h' \<Longrightarrow> mset h' = mset (h[pos := new])"
proof (induction lt new s h pos rule: siftdown_loop.induct)
  case (1 lt newitem startpos heap pos)
  show ?case
  proof (cases "startpos < pos \<and> lt newitem (heap ! ((pos - 1) div 2)) = Inr True")
    case True
    then have pp: "(pos - 1) div 2 < pos" by auto
    from True "1.prems" have r: "siftdown_loop lt newitem startpos (heap[pos := heap ! ((pos - 1) div 2)]) ((pos - 1) div 2) = Inr h'"
      by (subst (asm) siftdown_loop.simps) simp
    have "mset h' = mset (heap[pos := heap ! ((pos - 1) div 2), (pos - 1) div 2 := newitem])"
      using "1.IH"[OF _ _ _ _ r] True pp "1.prems"(1) by simp
    also have "\<dots> = mset (heap[pos := newitem])"
      using pp "1.prems"(1) by (intro mset_update_swap) auto
    finally show ?thesis .
  next
    case False
    with "1.prems" show ?thesis
      by (subst (asm) siftdown_loop.simps) (auto split: if_splits sum.splits)
  qed
qed


lemma mset_siftup_loop:
  "pos < length h \<Longrightarrow> siftup_loop lt h pos = Inr (h', p') \<Longrightarrow>
   mset (h'[p' := x]) = mset (h[pos := x])"
proof (induction lt h pos rule: siftup_loop.induct)
  case (1 lt heap pos)
  show ?case
  proof (cases "2 * pos + 1 < length heap")
    case True
    then obtain c where
      c: "(if 2 * pos + 2 < length heap
               then (case lt (heap ! (2 * pos + 1)) (heap ! (2 * pos + 2)) of
                       Inl e \<Rightarrow> Inl e
                     | Inr b \<Rightarrow> Inr (if \<not> b then 2 * pos + 2 else 2 * pos + 1))
               else Inr (2 * pos + 1)) = Inr c"
      and r: "siftup_loop lt (heap[pos := heap ! c]) c = Inr (h', p')"
      using "1.prems"(2) by (subst (asm) siftup_loop.simps) (auto split: sum.splits)
    from c True have cb: "c < length heap" "pos < c"
      by (auto split: if_splits sum.splits)
    have "mset (h'[p' := x]) = mset (heap[pos := heap ! c, c := x])"
      using "1.IH"[OF True c _ r] cb by simp
    also have "\<dots> = mset (heap[pos := x])"
      using cb "1.prems"(1) by (intro mset_update_swap) auto
    finally show ?thesis .
  next
    case False
    with "1.prems" show ?thesis
      by (subst (asm) siftup_loop.simps) auto
  qed
qed

lemma mset_heappush:
  assumes "heappush lt h x = Inr h'"
  shows "mset h' = add_mset x (mset h)"
proof -
  from assms have "siftdown_loop lt x 0 (h @ [x]) (length h) = Inr h'"
    by (simp add: heappush_def siftdown_def)
  then have "mset h' = mset ((h @ [x])[length h := x])"
    by (intro mset_siftdown_loop) auto
  then show ?thesis by simp
qed

lemma mset_siftup:
  assumes "siftup lt g pos = Inr r"
  shows "mset r = mset g"
proof -
  from assms have pos: "pos < length g"
    by (auto simp: siftup_def split: if_splits)
  with assms obtain g' p' where
    l: "siftup_loop lt g pos = Inr (g', p')" and
    d: "siftdown lt (g'[p' := g ! pos]) pos p' = Inr r"
    by (auto simp: siftup_def split: sum.splits)
  from l pos have p': "p' < length g'"
    using siftup_loop_pos length_siftup_loop by metis
  with d have "siftdown_loop lt (g ! pos) pos (g'[p' := g ! pos]) p' = Inr r"
    by (simp add: siftdown_def)
  then have "mset r = mset ((g'[p' := g ! pos])[p' := g ! pos])"
    using p' by (intro mset_siftdown_loop) auto
  also have "\<dots> = mset (g[pos := g ! pos])"
    using mset_siftup_loop[OF pos l] by simp
  finally show ?thesis by simp
qed

lemma mset_heappop:
  assumes "heappop lt h = Inr (x, h')"
  shows "mset h = add_mset x (mset h')"
proof (cases "butlast h = []")
  case True
  with assms have ne: "h \<noteq> []" and x: "x = last h" and h': "h' = []"
    by (auto simp: heappop_def Let_def split: if_splits)
  from ne True have "h = [last h]"
    by (metis append_butlast_last_id append_Nil)
  then have "mset h = {#x#}"
    unfolding x by (metis mset_single_iff_right)
  then show ?thesis by (simp add: h')
next
  case False
  with assms have ne: "h \<noteq> []" and x: "x = butlast h ! 0"
    and r: "siftup lt ((butlast h)[0 := last h]) 0 = Inr h'"
    by (auto simp: heappop_def Let_def split: if_splits sum.splits)
  from False obtain y ys where b: "butlast h = y # ys"
    by (cases "butlast h") auto
  have "mset h' = mset ((butlast h)[0 := last h])"
    using mset_siftup[OF r] .
  also have "\<dots> = add_mset (last h) (mset ys)"
    by (simp add: b)
  finally have "add_mset x (mset h') = add_mset (last h) (mset (butlast h))"
    by (simp add: b x)
  also have "\<dots> = mset (butlast h @ [last h])" by simp
  also have "\<dots> = mset h" using ne by simp
  finally show ?thesis by simp
qed

lemma length_heappop:
  assumes "heappop lt h = Inr (x, h')"
  shows "length h = Suc (length h')"
  using mset_heappop[OF assms] by (metis size_mset size_add_mset)

lemma length_heappush:
  assumes "heappush lt h x = Inr h'"
  shows "length h' = Suc (length h)"
  using mset_heappush[OF assms] by (metis size_mset size_add_mset)


subsection \<open>The ledger: the accounting loop of main\<close>

text \<open>
  The running figures of \<^verbatim>\<open>main\<close>: \<^verbatim>\<open>total_cost\<close>, \<^verbatim>\<open>total_btc\<close>,
  \<^verbatim>\<open>gains\<close> (\<^verbatim>\<open>long_term_gains\<close> is initialised and never used). The open lots
  are the list \<^verbatim>\<open>lots.data\<close>. A failure carries the error and the running figures
  as they stand when the exception is raised.
\<close>

record totals =
  total_cost :: decimal
  total_btc :: decimal
  gains :: decimal

type_synonym ledger = "totals \<times> lot list"

definition ledger_init :: ledger where
  "ledger_init = (\<lparr>total_cost = 0, total_btc = 0, gains = 0\<rparr>, [])"

text \<open>
  \<^verbatim>\<open>
  if t.type == 'trade':
      usd, btc = t.usd + t.fee_usd, t.btc
  else:
      btc = t.btc
      usd = roundd(-(t.price or fmv(t.timestamp)) * btc, 2)
  \<close>
  \<open>fmv\<close> is the price oracle; it may raise. Adding or multiplying with \<^verbatim>\<open>None\<close>
  is a \<^verbatim>\<open>TypeError\<close>. In the trade branch a missing \<^verbatim>\<open>t.btc\<close> is only
  assigned, so it is returned as it is.
\<close>

definition amounts ::
  "(struct_time \<Rightarrow> py_error + decimal) \<Rightarrow> transaction \<Rightarrow> py_error + (decimal \<times> decimal option)" where
  "amounts fmv t =
     (if type t = ''trade'' then
        (case usd t of
           None \<Rightarrow> Inl TypeError
         | Some u \<Rightarrow>
             (case fee_usd t of
                None \<Rightarrow> Inl TypeError
              | Some f \<Rightarrow> Inr (u + f, btc t)))
      else
        (case (if truthy (price t) then Inr (the (price t)) else fmv (timestamp t)) of
           Inl e \<Rightarrow> Inl e
         | Inr p \<Rightarrow>
             (case btc t of
                None \<Rightarrow> Inl TypeError
              | Some b \<Rightarrow> Inr (roundd (- p * b) 2, Some b))))"

text \<open>
  \<^verbatim>\<open>
  while btc > 0:
      lot = lots.pop()
      if lot.btc <= btc:
          gains -= lot.usd
          total_cost -= lot.usd
          btc -= lot.btc
      else:
          remaining = lot.sell(btc)
          gains -= lot.usd - remaining.usd
          total_cost -= lot.usd - remaining.usd
          lots.push(remaining)
          btc = 0
  \<close>
\<close>

function sell_loop ::
  "string \<Rightarrow> decimal \<Rightarrow> totals \<Rightarrow> lot list \<Rightarrow> (py_error \<times> totals) + ledger" where
  "sell_loop meth b tot lots =
     (if 0 < b then
        (case heappop (cmp_lt meth) lots of
           Inl e \<Rightarrow> Inl (e, tot)
         | Inr (l, lots') \<Rightarrow>
             if lot_btc l \<le> b then
               sell_loop meth (b - lot_btc l)
                 (tot\<lparr>gains := gains tot - lot_usd l,
                      total_cost := total_cost tot - lot_usd l\<rparr>)
                 lots'
             else
               (case sell l b of
                  Inl e \<Rightarrow> Inl (e, tot)
                | Inr None \<Rightarrow> Inl (AttributeError, tot)
                | Inr (Some remaining) \<Rightarrow>
                    (case heappush (cmp_lt meth) lots' remaining of
                       Inl e \<Rightarrow>
                         Inl (e, tot\<lparr>gains := gains tot - (lot_usd l - lot_usd remaining),
                                     total_cost := total_cost tot - (lot_usd l - lot_usd remaining)\<rparr>)
                     | Inr lots'' \<Rightarrow>
                         sell_loop meth 0
                           (tot\<lparr>gains := gains tot - (lot_usd l - lot_usd remaining),
                                total_cost := total_cost tot - (lot_usd l - lot_usd remaining)\<rparr>)
                           lots'')))
      else Inr (tot, lots))"
  by pat_completeness auto
termination
  by (relation "measure (\<lambda>(meth, b, tot, lots). if 0 < b then Suc (length lots) else 0)")
     (auto dest: length_heappop)

declare sell_loop.simps [simp del]

text \<open>
  The body of \<^verbatim>\<open>for t in all\<close>:
  \<^verbatim>\<open>
  total_btc += btc
  if btc > 0:
      lots.push(Lot(t.timestamp, btc, -usd, t))
      total_cost -= usd
  else:
      btc = -btc
      gains += usd
      while btc > 0: ...
  market_value = fmv(t.timestamp)
  \<close>
  The prints are left out; \<^verbatim>\<open>market_value\<close> only feeds them, but the call of the
  oracle can raise and is kept.
\<close>

definition ledger_step ::
  "string \<Rightarrow> (struct_time \<Rightarrow> py_error + decimal) \<Rightarrow> transaction \<Rightarrow> ledger \<Rightarrow>
   (py_error \<times> totals) + ledger" where
  "ledger_step meth fmv t st =
     (case st of (tot, lots) \<Rightarrow>
        (case amounts fmv t of
           Inl e \<Rightarrow> Inl (e, tot)
         | Inr (u, None) \<Rightarrow> Inl (TypeError, tot)
         | Inr (u, Some b) \<Rightarrow>
             (case (if 0 < b then
                      (case Lot_init (timestamp t) b (- u) t of
                         Inl e \<Rightarrow> Inl (e, tot\<lparr>total_btc := total_btc tot + b\<rparr>)
                       | Inr l \<Rightarrow>
                           (case heappush (cmp_lt meth) lots l of
                              Inl e \<Rightarrow> Inl (e, tot\<lparr>total_btc := total_btc tot + b\<rparr>)
                            | Inr lots' \<Rightarrow>
                                Inr (tot\<lparr>total_btc := total_btc tot + b,
                                         total_cost := total_cost tot - u\<rparr>, lots')))
                    else
                      sell_loop meth (- b)
                        (tot\<lparr>total_btc := total_btc tot + b, gains := gains tot + u\<rparr>) lots) of
                Inl err \<Rightarrow> Inl err
              | Inr (tot', lots') \<Rightarrow>
                  (case fmv (timestamp t) of
                     Inl e \<Rightarrow> Inl (e, tot')
                   | Inr market_value \<Rightarrow> Inr (tot', lots')))))"

fun ledger_loop ::
  "string \<Rightarrow> (struct_time \<Rightarrow> py_error + decimal) \<Rightarrow> transaction list \<Rightarrow> ledger \<Rightarrow>
   (py_error \<times> totals) + ledger" where
  "ledger_loop meth fmv [] st = Inr st"
| "ledger_loop meth fmv (t # ts) st =
     (case ledger_step meth fmv t st of
        Inl err \<Rightarrow> Inl err
      | Inr st' \<Rightarrow> ledger_loop meth fmv ts st')"

subsection \<open>Concrete inputs\<close>

text \<open>Dates and records used where a theorem is run on an input.\<close>

definition example_time :: "int \<Rightarrow> int \<Rightarrow> int \<Rightarrow> struct_time" where
  "example_time y m d =
     \<lparr>tm_year = y, tm_mon = m, tm_mday = d, tm_hour = 0, tm_min = 0, tm_sec = 0,
      tm_wday = 0, tm_yday = 0, tm_isdst = - 1\<rparr>"

section \<open>Properties\<close>

subsection \<open>Arithmetic helpers\<close>

lemma floor_rat_numeral_div [simp]:
  "\<lfloor>(numeral a / numeral b :: rat)\<rfloor> = numeral a div numeral b"
  using floor_divide_of_int_eq [of "numeral a" "numeral b", where ?'a = rat] by simp

lemma floor_rat_neg_numeral_div [simp]:
  "\<lfloor>(- numeral a / numeral b :: rat)\<rfloor> = - numeral a div numeral b"
  using floor_divide_of_int_eq [of "- numeral a" "numeral b", where ?'a = rat] by simp

subsection \<open>The heap invariant\<close>

text \<open>
  \<open>order_lt lt le\<close>: the comparison \<open>lt\<close> never raises and is the strict part of a
  total preorder \<open>le\<close>. \<open>is_heap\<close> is the invariant of heapq: no item is below its
  parent. \<open>hole_heap\<close> is the invariant inside the sift loops, where the item at
  \<open>pos\<close> is being moved: every pair that does not involve \<open>pos\<close> is in order, and
  the children of \<open>pos\<close> are not below its parent.
\<close>

definition is_heap :: "('a \<Rightarrow> 'a \<Rightarrow> bool) \<Rightarrow> 'a list \<Rightarrow> bool" where
  "is_heap le h \<longleftrightarrow> (\<forall>i. 0 < i \<and> i < length h \<longrightarrow> le (h ! ((i - 1) div 2)) (h ! i))"

definition hole_heap :: "('a \<Rightarrow> 'a \<Rightarrow> bool) \<Rightarrow> 'a list \<Rightarrow> nat \<Rightarrow> bool" where
  "hole_heap le h pos \<longleftrightarrow>
     (\<forall>i. 0 < i \<and> i < length h \<and> i \<noteq> pos \<and> (i - 1) div 2 \<noteq> pos \<longrightarrow> le (h ! ((i - 1) div 2)) (h ! i)) \<and>
     (\<forall>c. 0 < c \<and> c < length h \<and> (c - 1) div 2 = pos \<and> 0 < pos \<longrightarrow> le (h ! ((pos - 1) div 2)) (h ! c))"

definition order_lt :: "('a \<Rightarrow> 'a \<Rightarrow> py_error + bool) \<Rightarrow> ('a \<Rightarrow> 'a \<Rightarrow> bool) \<Rightarrow> bool" where
  "order_lt lt le \<longleftrightarrow>
     (\<forall>x y. lt x y = Inr (\<not> le y x)) \<and>
     (\<forall>x y z. le x y \<longrightarrow> le y z \<longrightarrow> le x z) \<and>
     (\<forall>x y. le x y \<or> le y x)"

lemma order_ltD:
  assumes "order_lt lt le"
  shows "lt x y = Inr (\<not> le y x)"
    and "le x y \<Longrightarrow> le y z \<Longrightarrow> le x z"
    and "\<not> le x y \<Longrightarrow> le y x"
    and "le x x"
  using assms unfolding order_lt_def by blast+

lemma is_heap_root_le:
  assumes ord: "order_lt lt le" and h: "is_heap le h"
  shows "i < length h \<Longrightarrow> le (h ! 0) (h ! i)"
proof (induction i rule: less_induct)
  case (less i)
  show ?case
  proof (cases "i = 0")
    case True
    then show ?thesis using order_ltD(4)[OF ord] by simp
  next
    case False
    then have p: "(i - 1) div 2 < i" by arith
    with less have "le (h ! 0) (h ! ((i - 1) div 2))" by simp
    moreover from h False less.prems have "le (h ! ((i - 1) div 2)) (h ! i)"
      by (simp add: is_heap_def)
    ultimately show ?thesis by (rule order_ltD(2)[OF ord])
  qed
qed

lemma parent_neq: "0 < pos \<Longrightarrow> (pos - 1) div 2 \<noteq> (pos :: nat)"
  by arith

lemma child_neq: "0 < c \<Longrightarrow> (c - 1) div 2 = pos \<Longrightarrow> c \<noteq> (pos :: nat)"
  by arith

lemma hole_heap_update:
  "hole_heap le (h[pos := x]) pos = hole_heap le h pos"
proof -
  have a: "(h[pos := x]) ! i = h ! i" if "i \<noteq> pos" for i
    using that by simp
  have b: "(h[pos := x]) ! ((pos - 1) div 2) = h ! ((pos - 1) div 2)" if "0 < pos"
    using parent_neq[OF that] by simp
  have c: "(h[pos := x]) ! c = h ! c" if "0 < c" "(c - 1) div 2 = pos" for c
    using child_neq[OF that] by simp
  show ?thesis
    unfolding hole_heap_def length_list_update
    by (simp add: a b c del: One_nat_def cong: conj_cong)
qed

lemma is_heap_siftdown_loop:
  "order_lt lt le \<Longrightarrow> s = 0 \<Longrightarrow> hole_heap le h pos \<Longrightarrow> pos < length h \<Longrightarrow>
    (\<forall>c. 0 < c \<and> c < length h \<and> (c - 1) div 2 = pos \<longrightarrow> le new (h ! c)) \<Longrightarrow>
    siftdown_loop lt new s h pos = Inr h' \<Longrightarrow> is_heap le h'"
proof (induction lt new s h pos rule: siftdown_loop.induct)
  case (1 lt newitem startpos heap pos)
  note ord = "1.prems"(1)
  note tr = order_ltD(2)[OF ord]
  let ?pp = "(pos - 1) div 2"
  have hole1: "\<And>i. 0 < i \<Longrightarrow> i < length heap \<Longrightarrow> i \<noteq> pos \<Longrightarrow> (i - 1) div 2 \<noteq> pos \<Longrightarrow>
      le (heap ! ((i - 1) div 2)) (heap ! i)"
    and hole2: "\<And>c. 0 < c \<Longrightarrow> c < length heap \<Longrightarrow> (c - 1) div 2 = pos \<Longrightarrow> 0 < pos \<Longrightarrow>
      le (heap ! ?pp) (heap ! c)"
    using "1.prems"(3) unfolding hole_heap_def by blast+
  have kids: "\<And>c. 0 < c \<Longrightarrow> c < length heap \<Longrightarrow> (c - 1) div 2 = pos \<Longrightarrow> le newitem (heap ! c)"
    using "1.prems"(5) by blast
  show ?case
  proof (cases "0 < pos")
    case False
    then have h': "h' = heap[pos := newitem]" and pos0: "pos = 0"
      using "1.prems"(2,6) by (subst (asm) siftdown_loop.simps; simp)+
    show ?thesis
      unfolding is_heap_def
    proof (intro allI impI)
      fix i assume i: "0 < i \<and> i < length h'"
      then have il: "i < length heap" "i \<noteq> pos" using h' pos0 by auto
      show "le (h' ! ((i - 1) div 2)) (h' ! i)"
      proof (cases "(i - 1) div 2 = pos")
        case True
        then show ?thesis using kids[of i] i il "1.prems"(4) by (simp add: h' del: One_nat_def)
      next
        case False
        then show ?thesis using hole1[of i] i il by (simp add: h' del: One_nat_def)
      qed
    qed
  next
    case pos: True
    then have pp: "?pp < pos" "?pp < length heap" using "1.prems"(4) by auto
    from order_ltD(1)[OF ord] have lt: "lt newitem (heap ! ?pp) = Inr (\<not> le (heap ! ?pp) newitem)"
      by simp
    show ?thesis
    proof (cases "le (heap ! ?pp) newitem")
      case True
      then have h': "h' = heap[pos := newitem]"
        using "1.prems"(2,6) pos lt by (subst (asm) siftdown_loop.simps) simp
      show ?thesis
        unfolding is_heap_def
      proof (intro allI impI)
        fix i assume i: "0 < i \<and> i < length h'"
        then have il: "i < length heap" using h' by auto
        consider "i = pos" | "i \<noteq> pos" "(i - 1) div 2 = pos" | "i \<noteq> pos" "(i - 1) div 2 \<noteq> pos"
          by blast
        then show "le (h' ! ((i - 1) div 2)) (h' ! i)"
        proof cases
          case 1
          then show ?thesis using True pp "1.prems"(4) by (simp add: h' del: One_nat_def)
        next
          case 2
          then show ?thesis using kids[of i] i il "1.prems"(4) by (simp add: h' del: One_nat_def)
        next
          case 3
          then show ?thesis using hole1[of i] i il by (simp add: h' del: One_nat_def)
        qed
      qed
    next
      case False
      then have nle: "le newitem (heap ! ?pp)" by (rule order_ltD(3)[OF ord])
      let ?h1 = "heap[pos := heap ! ?pp]"
      from False have r: "siftdown_loop lt newitem startpos ?h1 ?pp = Inr h'"
        using "1.prems"(2,6) pos lt by (subst (asm) siftdown_loop.simps) simp
      have ppp: "(?pp - 1) div 2 \<noteq> pos" using pp by arith
      have gp: "le (heap ! ((?pp - 1) div 2)) (heap ! ?pp)" if "0 < ?pp"
        using hole1[of ?pp] that pp ppp by auto
      have n1: "?h1 ! i = heap ! i" if "i \<noteq> pos" for i using that by simp
      have np: "?h1 ! pos = heap ! ?pp" using "1.prems"(4) by simp
      have hh: "hole_heap le ?h1 ?pp"
        unfolding hole_heap_def length_list_update
      proof (intro conjI allI impI)
        fix i assume i: "0 < i \<and> i < length heap \<and> i \<noteq> ?pp \<and> (i - 1) div 2 \<noteq> ?pp"
        then have ip: "i \<noteq> pos" by auto
        show "le (?h1 ! ((i - 1) div 2)) (?h1 ! i)"
        proof (cases "(i - 1) div 2 = pos")
          case True
          then show ?thesis using hole2[of i] i pos ip by (simp add: n1 np del: One_nat_def)
        next
          case False
          then show ?thesis using hole1[of i] i ip by (simp add: n1 del: One_nat_def)
        qed
      next
        fix c assume c: "0 < c \<and> c < length heap \<and> (c - 1) div 2 = ?pp \<and> 0 < ?pp"
        show "le (?h1 ! ((?pp - 1) div 2)) (?h1 ! c)"
        proof (cases "c = pos")
          case True
          then show ?thesis using gp c ppp by (simp add: n1 np del: One_nat_def)
        next
          case False
          have g2: "le (heap ! ?pp) (heap ! c)"
            using hole1[of c] c False pp by auto
          have g1: "le (heap ! ((?pp - 1) div 2)) (heap ! ?pp)"
            using gp c by simp
          have "le (heap ! ((?pp - 1) div 2)) (heap ! c)"
            by (rule tr[OF g1 g2])
          then show ?thesis using False ppp by (simp add: n1 del: One_nat_def)
        qed
      qed
      have kk: "\<forall>c. 0 < c \<and> c < length ?h1 \<and> (c - 1) div 2 = ?pp \<longrightarrow> le newitem (?h1 ! c)"
      proof (intro allI impI)
        fix c assume c: "0 < c \<and> c < length ?h1 \<and> (c - 1) div 2 = ?pp"
        show "le newitem (?h1 ! c)"
        proof (cases "c = pos")
          case True
          then show ?thesis using nle by (simp add: np del: One_nat_def)
        next
          case False
          have g2: "le (heap ! ?pp) (heap ! c)"
            using hole1[of c] c False pp by auto
          have "le newitem (heap ! c)" by (rule tr[OF nle g2])
          then show ?thesis using False by (simp add: n1 del: One_nat_def)
        qed
      qed
      have "lt newitem (heap ! ?pp) = Inr True" using lt False by simp
      from "1.IH"[OF _ this _ ord "1.prems"(2) hh _ kk r] pos pp "1.prems"(2)
      show ?thesis by simp
    qed
  qed
qed


lemma hole_heap_siftup_loop:
  "order_lt lt le \<Longrightarrow> hole_heap le h pos \<Longrightarrow> pos < length h \<Longrightarrow>
   siftup_loop lt h pos = Inr (h', p') \<Longrightarrow> hole_heap le h' p'"
proof (induction lt h pos rule: siftup_loop.induct)
  case (1 lt heap pos)
  note ord = "1.prems"(1)
  have hole1: "\<And>i. 0 < i \<Longrightarrow> i < length heap \<Longrightarrow> i \<noteq> pos \<Longrightarrow> (i - 1) div 2 \<noteq> pos \<Longrightarrow>
      le (heap ! ((i - 1) div 2)) (heap ! i)"
    and hole2: "\<And>c. 0 < c \<Longrightarrow> c < length heap \<Longrightarrow> (c - 1) div 2 = pos \<Longrightarrow> 0 < pos \<Longrightarrow>
      le (heap ! ((pos - 1) div 2)) (heap ! c)"
    using "1.prems"(2) unfolding hole_heap_def by blast+
  show ?case
  proof (cases "2 * pos + 1 < length heap")
    case False
    with "1.prems" show ?thesis
      by (subst (asm) siftup_loop.simps) auto
  next
    case True
    let ?l = "2 * pos + 1" and ?r = "2 * pos + 2"
    define c where "c = (if ?r < length heap \<and> le (heap ! ?r) (heap ! ?l) then ?r else ?l)"
    have sel: "(if ?r < length heap
               then (case lt (heap ! ?l) (heap ! ?r) of
                       Inl e \<Rightarrow> Inl e
                     | Inr b \<Rightarrow> Inr (if \<not> b then ?r else ?l))
               else Inr ?l) = Inr c"
      by (simp add: c_def order_ltD(1)[OF ord])
    let ?h1 = "heap[pos := heap ! c]"
    have r: "siftup_loop lt ?h1 c = Inr (h', p')"
      using "1.prems"(4) True sel by (subst (asm) siftup_loop.simps) simp
    have cb: "c < length heap" "pos < c" "(c - 1) div 2 = pos" "0 < c"
      using True by (auto simp: c_def)
    have sib: "le (heap ! c) (heap ! i)"
      if "i < length heap" "(i - 1) div 2 = pos" "0 < i" "i \<noteq> c" for i
    proof -
      from that have "i = ?l \<or> i = ?r" by arith
      then show ?thesis
      proof
        assume i: "i = ?l"
        with that have "c = ?r" "le (heap ! ?r) (heap ! ?l)"
          by (auto simp: c_def split: if_splits)
        with i show ?thesis by simp
      next
        assume i: "i = ?r"
        with that have "c = ?l" "\<not> le (heap ! ?r) (heap ! ?l)"
          by (auto simp: c_def split: if_splits)
        with i show ?thesis using order_ltD(3)[OF ord] by simp
      qed
    qed
    have n1: "?h1 ! i = heap ! i" if "i \<noteq> pos" for i using that by simp
    have np: "?h1 ! pos = heap ! c" using "1.prems"(3) by simp
    have hh: "hole_heap le ?h1 c"
      unfolding hole_heap_def length_list_update
    proof (intro conjI allI impI)
      fix i assume i: "0 < i \<and> i < length heap \<and> i \<noteq> c \<and> (i - 1) div 2 \<noteq> c"
      consider "i = pos" | "i \<noteq> pos" "(i - 1) div 2 = pos" | "i \<noteq> pos" "(i - 1) div 2 \<noteq> pos"
        by blast
      then show "le (?h1 ! ((i - 1) div 2)) (?h1 ! i)"
      proof cases
        case 1
        then have "0 < pos" using i by simp
        then show ?thesis
          using hole2[of c] cb 1 parent_neq[of pos] by (simp add: n1 np del: One_nat_def)
      next
        case 2
        then show ?thesis using sib[of i] i by (simp add: n1 np del: One_nat_def)
      next
        case 3
        then show ?thesis using hole1[of i] i by (simp add: n1 del: One_nat_def)
      qed
    next
      fix d assume d: "0 < d \<and> d < length heap \<and> (d - 1) div 2 = c \<and> 0 < c"
      then have "d \<noteq> pos" using cb by arith
      moreover have "le (heap ! c) (heap ! d)"
        using hole1[of d] d cb \<open>d \<noteq> pos\<close> by auto
      ultimately show "le (?h1 ! ((c - 1) div 2)) (?h1 ! d)"
        using cb by (simp add: n1 np del: One_nat_def)
    qed
    from "1.IH"[OF True sel ord hh _ r] cb show ?thesis by simp
  qed
qed

lemma is_heap_heappush:
  assumes ord: "order_lt lt le" and h: "is_heap le h" and p: "heappush lt h x = Inr h'"
  shows "is_heap le h'"
proof -
  from p have r: "siftdown_loop lt x 0 (h @ [x]) (length h) = Inr h'"
    by (simp add: heappush_def siftdown_def)
  have hh: "hole_heap le (h @ [x]) (length h)"
    unfolding hole_heap_def
  proof (intro conjI allI impI)
    fix i assume i: "0 < i \<and> i < length (h @ [x]) \<and> i \<noteq> length h \<and> (i - 1) div 2 \<noteq> length h"
    then have "i < length h" "(i - 1) div 2 < length h" by auto
    then show "le ((h @ [x]) ! ((i - 1) div 2)) ((h @ [x]) ! i)"
      using h i by (simp add: nth_append is_heap_def del: One_nat_def)
  next
    fix c assume "0 < c \<and> c < length (h @ [x]) \<and> (c - 1) div 2 = length h \<and> 0 < length h"
    then have False by auto
    then show "le ((h @ [x]) ! ((length h - 1) div 2)) ((h @ [x]) ! c)" ..
  qed
  have kk: "\<forall>c. 0 < c \<and> c < length (h @ [x]) \<and> (c - 1) div 2 = length h \<longrightarrow> le x ((h @ [x]) ! c)"
    by auto
  show ?thesis
    by (rule is_heap_siftdown_loop[OF ord refl hh _ kk r]) simp
qed

lemma is_heap_siftup_root:
  assumes ord: "order_lt lt le" and hh: "hole_heap le g 0" and r: "siftup lt g 0 = Inr h'"
  shows "is_heap le h'"
proof -
  from r have pos: "0 < length g"
    by (auto simp: siftup_def split: if_splits)
  with r obtain g' p' where
    l: "siftup_loop lt g 0 = Inr (g', p')" and
    d: "siftdown lt (g'[p' := g ! 0]) 0 p' = Inr h'"
    by (auto simp: siftup_def split: sum.splits)
  from siftup_loop_pos[OF pos l] length_siftup_loop[OF l]
  have p': "p' < length g'" "length g' \<le> 2 * p' + 1" by auto
  from d p' have d': "siftdown_loop lt (g ! 0) 0 (g'[p' := g ! 0]) p' = Inr h'"
    by (simp add: siftdown_def)
  have h1: "hole_heap le (g'[p' := g ! 0]) p'"
    using hole_heap_siftup_loop[OF ord hh pos l] by (simp add: hole_heap_update)
  have kk: "\<forall>c. 0 < c \<and> c < length (g'[p' := g ! 0]) \<and> (c - 1) div 2 = p' \<longrightarrow>
      le (g ! 0) ((g'[p' := g ! 0]) ! c)"
    using p' by auto
  show ?thesis
    by (rule is_heap_siftdown_loop[OF ord refl h1 _ kk d']) (use p' in simp)
qed

lemma heappop_root:
  assumes p: "heappop lt h = Inr (x, h')"
  shows "x = h ! 0"
proof -
  from p have ne: "h \<noteq> []"
    by (auto simp: heappop_def split: if_splits)
  show ?thesis
  proof (cases "butlast h = []")
    case True
    with p ne have x: "x = last h"
      by (auto simp: heappop_def Let_def split: if_splits)
    from ne True have "h = [last h]"
      by (metis append_butlast_last_id append_Nil)
    then have "h ! 0 = last h"
      by (metis nth_Cons_0)
    with x show ?thesis by simp
  next
    case False
    with p ne have "x = butlast h ! 0"
      by (auto simp: heappop_def Let_def split: if_splits sum.splits)
    moreover from False have "0 < length (butlast h)" by (simp del: length_butlast)
    ultimately show ?thesis
      by (simp add: nth_butlast del: length_butlast)
  qed
qed

lemma is_heap_heappop:
  assumes ord: "order_lt lt le" and h: "is_heap le h" and p: "heappop lt h = Inr (x, h')"
  shows "is_heap le h'"
proof -
  from p have ne: "h \<noteq> []"
    by (auto simp: heappop_def split: if_splits)
  show ?thesis
  proof (cases "butlast h = []")
    case True
    with p ne have "h' = []"
      by (auto simp: heappop_def Let_def split: if_splits)
    then show ?thesis by (simp add: is_heap_def)
  next
    case False
    with p ne have r: "siftup lt ((butlast h)[0 := last h]) 0 = Inr h'"
      by (auto simp: heappop_def Let_def split: if_splits sum.splits)
    have hh: "hole_heap le ((butlast h)[0 := last h]) 0"
      unfolding hole_heap_def length_list_update
    proof (intro conjI allI impI)
      fix i assume i: "0 < i \<and> i < length (butlast h) \<and> i \<noteq> 0 \<and> (i - 1) div 2 \<noteq> 0"
      then have "i < length h" by auto
      with h i have "le (h ! ((i - 1) div 2)) (h ! i)"
        by (simp add: is_heap_def del: One_nat_def)
      moreover have "(i - 1) div 2 < length (butlast h)" using i by auto
      ultimately show "le ((butlast h)[0 := last h] ! ((i - 1) div 2)) ((butlast h)[0 := last h] ! i)"
        using i by (simp add: nth_butlast del: One_nat_def)
    next
      fix c assume "0 < c \<and> c < length (butlast h) \<and> (c - 1) div 2 = 0 \<and> (0::nat) < 0"
      then show "le ((butlast h)[0 := last h] ! ((0 - 1) div 2)) ((butlast h)[0 := last h] ! c)"
        by simp
    qed
    show ?thesis
      by (rule is_heap_siftup_root[OF ord hh r])
  qed
qed

lemma heappop_min:
  assumes ord: "order_lt lt le" and h: "is_heap le h" and p: "heappop lt h = Inr (x, h')"
    and y: "y \<in> set h"
  shows "le x y"
proof -
  from y obtain i where "i < length h" "y = h ! i"
    by (auto simp: in_set_conv_nth)
  then show ?thesis
    using is_heap_root_le[OF ord h, of i] heappop_root[OF p] by simp
qed

subsection \<open>Rounding of fiat amounts\<close>









subsection \<open>The price of a new transaction\<close>

text \<open>
  Claim C10: the constructor of Transaction always returns (it never divides by zero);
  the price is \<open>usd / btc\<close> exactly when both amounts are present and non-zero and no
  price was supplied, and the supplied price otherwise; so with a zero or missing amount
  and no supplied price the price is \<open>None\<close>.
\<close>

theorem Transaction_init_price:
  "\<exists>t c'. Transaction_init c ts ty b u p fu fb nfo ident = Inr (t, c') \<and>
     price t = (if truthy b \<and> truthy u \<and> p = None then Some (the u / the b) else p) \<and>
     ((\<not> truthy b \<or> \<not> truthy u) \<and> p = None \<longrightarrow> price t = None)"
  by (cases b; cases u; cases p; cases ident)
     (auto simp: Transaction_init_def dec_div_def truthy_def unique_def split: prod.splits)

text \<open>Claim C10 on a deposit with a zero amount and on a trade of 2 for 600.\<close>

theorem Transaction_init_price_witness:
  "(\<exists>t c'. Transaction_init 0 (example_time 2013 1 1) ''deposit'' (Some 0) (Some 5) None (Some 0) (Some 0) None None
       = Inr (t, c') \<and> price t = None) \<and>
   (\<exists>t c'. Transaction_init 0 (example_time 2013 1 1) ''trade'' (Some 2) (Some (- 600)) None (Some 0) (Some 0) None None
       = Inr (t, c') \<and> price t = Some (- 300))"
  using Transaction_init_price [of 0 "example_time 2013 1 1" "''deposit''" "Some 0" "Some 5" None "Some 0" "Some 0" None None]
    Transaction_init_price [of 0 "example_time 2013 1 1" "''trade''" "Some 2" "Some (- 600)" None "Some 0" "Some 0" None None]
  by (simp add: truthy_def)


end
